theory Spec2Isabelle
  imports Main "HOL-Library.Char_ord" "HOL-Library.List_Lexorder" "HOL-Library.Multiset"
begin

section \<open>JavaScript strings and arrays\<close>

text \<open>
  Strings are lists of code units. The string methods that \<^verbatim>\<open>lib/ultralight.js\<close>
  calls are written out below with the result JavaScript gives on every input,
  negative and out-of-range indices included.
\<close>

text \<open>\<^verbatim>\<open>s.slice(start, end)\<close>: a negative index counts from the end, and both
  ends are clamped to the string.\<close>

definition slice :: "string \<Rightarrow> int \<Rightarrow> int \<Rightarrow> string" where
  "slice s start end =
     (let len = int (length s);
          from = (if start < 0 then max (len + start) 0 else min start len);
          to = (if end < 0 then max (len + end) 0 else min end len)
      in take (nat (to - from)) (drop (nat from) s))"

text \<open>\<^verbatim>\<open>s.slice(start)\<close>.\<close>

definition slice_from :: "string \<Rightarrow> int \<Rightarrow> string" where
  "slice_from s start = slice s start (int (length s))"

text \<open>\<^verbatim>\<open>s.lastIndexOf(c)\<close> for a one-character needle: the last index, or -1.\<close>

fun lastIndexOf :: "string \<Rightarrow> char \<Rightarrow> int" where
  "lastIndexOf [] c = - 1"
| "lastIndexOf (x # xs) c =
     (let r = lastIndexOf xs c
      in if 0 \<le> r then r + 1 else if x = c then 0 else - 1)"

text \<open>\<^verbatim>\<open>s.indexOf(t) !== -1\<close>: \<open>t\<close> occurs somewhere in \<open>s\<close>.\<close>

fun starts_with :: "string \<Rightarrow> string \<Rightarrow> bool" where
  "starts_with s [] = True"
| "starts_with [] (y # ys) = False"
| "starts_with (x # xs) (y # ys) = (x = y \<and> starts_with xs ys)"

fun contains :: "string \<Rightarrow> string \<Rightarrow> bool" where
  "contains [] t = (t = [])"
| "contains (x # xs) t = (starts_with (x # xs) t \<or> contains xs t)"

text \<open>\<^verbatim>\<open>s.split(d)\<close> for a one-character separator; the result is never empty
  (\<^verbatim>\<open>''.split('/')\<close> is \<^verbatim>\<open>['']\<close>).\<close>

fun js_split :: "string \<Rightarrow> char \<Rightarrow> string list" where
  "js_split [] d = [[]]"
| "js_split (c # cs) d =
     (if c = d then [] # js_split cs d
      else (case js_split cs d of
              [] \<Rightarrow> [[c]]
            | p # ps \<Rightarrow> (c # p) # ps))"

text \<open>\<^verbatim>\<open>parts.join(sep)\<close>.\<close>

fun join :: "string list \<Rightarrow> string \<Rightarrow> string" where
  "join [] sep = []"
| "join [x] sep = x"
| "join (x # y # ys) sep = x @ sep @ join (y # ys) sep"

text \<open>\<^verbatim>\<open>xs[i]\<close>: \<^verbatim>\<open>undefined\<close> (here \<open>None\<close>) outside the array.\<close>

definition at_index :: "'a list \<Rightarrow> int \<Rightarrow> 'a option" where
  "at_index xs i = (if 0 \<le> i \<and> i < int (length xs) then Some (xs ! nat i) else None)"

text \<open>\<^verbatim>\<open>xs.sort()\<close> with no comparator orders strings by their code units,
  position by position, a proper prefix first: the lexicographic order of
  \<^typ>\<open>char list\<close>.\<close>

definition js_sort :: "string list \<Rightarrow> string list" where
  "js_sort xs = sort xs"

text \<open>\<^verbatim>\<open>_.indexOf(xs, x, true)\<close> of underscore on a sorted array: the binary search
  \<^verbatim>\<open>_.sortedIndex\<close> finds the lowest insertion point \<open>i\<close>, and the result is \<open>i\<close>
  when \<^verbatim>\<open>xs[i] === x\<close> and -1 otherwise.\<close>

definition sortedIndex :: "string list \<Rightarrow> string \<Rightarrow> nat" where
  "sortedIndex xs x = length (takeWhile (\<lambda>y. y < x) xs)"

definition indexOf_sorted :: "string list \<Rightarrow> string \<Rightarrow> int" where
  "indexOf_sorted xs x =
     (let i = sortedIndex xs x
      in if at_index xs (int i) = Some x then int i else - 1)"

text \<open>Decimal digits, and the number that a string of them writes.\<close>

definition digit :: "char \<Rightarrow> bool" where
  "digit c = (CHR ''0'' \<le> c \<and> c \<le> CHR ''9'')"

definition seq_value :: "string \<Rightarrow> nat" where
  "seq_value s = foldl (\<lambda>a c. 10 * a + (of_char c - 48)) 0 s"

subsection \<open>Objects used as tables\<close>

text \<open>
  \<^verbatim>\<open>cxns\<close> and \<^verbatim>\<open>_locks\<close> are plain objects. Reading \<^verbatim>\<open>obj[k]\<close> finds the object's own
  property, and otherwise the property that every object inherits from
  \<^verbatim>\<open>Object.prototype\<close> under that name. The inherited values are functions, and for
  \<^verbatim>\<open>__proto__\<close> the prototype itself: none of them is falsy.
\<close>

definition object_prototype_keys :: "string list" where
  "object_prototype_keys =
     [''constructor'', ''toString'', ''toLocaleString'', ''valueOf'', ''hasOwnProperty'',
      ''isPrototypeOf'', ''propertyIsEnumerable'', ''__defineGetter__'', ''__defineSetter__'',
      ''__lookupGetter__'', ''__lookupSetter__'', ''__proto__'']"

datatype 'a property = Own 'a | Inherited string

definition property :: "(string \<rightharpoonup> 'a) \<Rightarrow> string \<Rightarrow> 'a property option" where
  "property obj k =
     (case obj k of
        Some v \<Rightarrow> Some (Own v)
      | None \<Rightarrow> if k \<in> set object_prototype_keys then Some (Inherited k) else None)"



section \<open>The coordination store, as the library sees it\<close>

text \<open>
  The native client is an external collaborator. Every call the library makes is
  recorded in a history, and the reply to a call may depend on everything the
  library has asked before. A reply carries the return code and the payloads the
  callbacks read: the created path of \<^verbatim>\<open>a_create\<close> and the child names of
  \<^verbatim>\<open>a_get_children\<close>. The error message the client passes with a return code other
  than \<^verbatim>\<open>ZOK\<close> is a non-empty string fixed by that code. The calls go through
  \<^verbatim>\<open>this._zk\<close>, which holds a handle whenever the connection gate has let an
  operation pass.
\<close>

datatype zk_rc = ZOK | ZNODEEXISTS | ZNONODE | ZFAIL int

datatype zk_flag = ZOO_EPHEMERAL | ZOO_SEQUENCE

datatype store_op =
    Create string string "zk_flag list"
  | Delete "string property" nat
  | Exists string bool
  | GetChildren string bool

record reply =
  rc :: zk_rc
  stat :: "string option"
  children :: "string list"

type_synonym history = "store_op list"
type_synonym store = "history \<Rightarrow> store_op \<Rightarrow> reply"

datatype js_error =
    ConnectionInError
  | TimedOut nat
  | ConnectionClosed
  | Reconnecting
  | InvalidPath
  | DontHaveLock string
  | StoreMessage zk_rc
  | ZkError zk_rc
  | TypeError

text \<open>
  What becomes of a completion callback: called with no error and a result, called
  with an error, not called because an exception left the enclosing callback, or not
  called (yet) because the operation is waiting.
\<close>

datatype waiting = ForConnection | ForDeletion string | ForNothing | StillNegotiating

datatype 'a outcome =
    Success 'a
  | Failure js_error
  | Uncaught js_error
  | Pending waiting

section \<open>Creating nodes and paths\<close>

text \<open>\<^verbatim>\<open>ZkCxn.prototype._create\<close>: a path that does not begin with a slash is
  refused before the store is called; \<^verbatim>\<open>ZOK\<close> and \<^verbatim>\<open>ZNODEEXISTS\<close> both complete
  without error.\<close>

definition create :: "store \<Rightarrow> history \<Rightarrow> string \<Rightarrow> string \<Rightarrow> zk_flag list
    \<Rightarrow> history \<times> (js_error + string option)" where
  "create st h path val flags =
     (if at_index path 0 \<noteq> Some CHR ''/'' then (h, Inl InvalidPath)
      else let r = st h (Create path val flags);
               h' = h @ [Create path val flags]
           in if rc r \<noteq> ZOK \<and> rc r \<noteq> ZNODEEXISTS then (h', Inl (StoreMessage (rc r)))
              else (h', Inr (stat r)))"

text \<open>\<^verbatim>\<open>async.forEachSeries\<close>: one item after the other, stopping at the first
  error; an empty array completes at once.\<close>

fun forEachSeries :: "'a list \<Rightarrow> (history \<Rightarrow> 'a \<Rightarrow> history \<times> (js_error + 'b))
    \<Rightarrow> history \<Rightarrow> history \<times> js_error option" where
  "forEachSeries [] f h = (h, None)"
| "forEachSeries (x # xs) f h =
     (case f h x of
        (h', Inl e) \<Rightarrow> (h', Some e)
      | (h', Inr _) \<Rightarrow> forEachSeries xs f h')"

text \<open>The \<^verbatim>\<open>paths\<close> array that \<^verbatim>\<open>_createPath\<close> builds from the non-empty parts.\<close>

definition ancestors :: "string list \<Rightarrow> string list" where
  "ancestors parts = map (\<lambda>i. ''/'' @ join (take i parts) ''/'') [1..<Suc (length parts)]"

text \<open>\<^verbatim>\<open>ZkCxn.prototype._createPath\<close>.\<close>

definition createPath :: "store \<Rightarrow> history \<Rightarrow> string \<Rightarrow> string \<Rightarrow> zk_flag list
    \<Rightarrow> history \<times> js_error option" where
  "createPath st h path val flags =
     (let path1 = (if at_index path 0 = Some CHR ''/'' then drop 1 path else path)
      in if length path1 = 0 then (h, None)
         else let parts = filter (\<lambda>i. i \<noteq> []) (js_split path1 CHR ''/'')
              in forEachSeries (ancestors parts)
                   (\<lambda>h p. create st h p val flags) h)"

section \<open>Sessions\<close>

datatype cxnStates = ERROR | CLOSED | CONNECTING | CONNECTED

text \<open>
  A continuation queued in the watch registry: an identity, and the watch
  registrations (path and continuation) that it pushes when it is invoked.
\<close>

datatype cont = Cont nat "(string \<times> cont) list"

fun registers :: "cont \<Rightarrow> (string \<times> cont) list" where
  "registers (Cont n rs) = rs"

text \<open>The fields of \<^verbatim>\<open>ZkCxn\<close>. \<open>zk\<close> and \<open>stateEmitter\<close> say whether the field holds
  an object. \<open>locks\<close> and \<open>watching\<close> hold the objects' own properties; their keys are
  store paths, which begin with a slash. \<open>watching\<close> is only ever read at a store
  path; \<open>locks\<close> is read at whatever name \<^verbatim>\<open>unlock\<close> is given, through \<open>property\<close>.
  The session identifier, which nothing reads, is left out.\<close>

record zkcxn =
  urls :: string
  zk :: bool
  stateEmitter :: bool
  cxnState :: cxnStates
  locks :: "string \<rightharpoonup> string"
  watching :: "string \<rightharpoonup> cont list"
  timeout :: nat

definition ZkCxn :: "string \<Rightarrow> nat \<Rightarrow> zkcxn" where
  "ZkCxn u t =
     \<lparr>urls = u, zk = False, stateEmitter = False, cxnState = CLOSED,
      locks = Map.empty, watching = Map.empty, timeout = t\<rparr>"

subsection \<open>Waiting for the connection\<close>

text \<open>
  A callback registered by \<^verbatim>\<open>onConnection\<close> is wrapped by \<^verbatim>\<open>_.once\<close>; \<open>called\<close>
  is the guard of that wrapper and \<open>timer\<close> says that the timeout is still
  pending. The wrapper is reached from three places: the listener for
  \<^verbatim>\<open>CONNECTED\<close>, the listener for \<^verbatim>\<open>ERROR\<close>, and the timer.
\<close>

record waiter =
  called :: bool
  timer :: bool

datatype conn_event = EmitConnected | EmitError js_error | TimerFires

datatype gate = Resolved "js_error option" | Registered waiter

text \<open>\<^verbatim>\<open>_.once(function() { clearTimeout(timerId); originalCallback.apply(null, arguments); })\<close>:
  the result lists the calls of the original callback, by their error argument.\<close>

definition once_callback :: "waiter \<Rightarrow> js_error option \<Rightarrow> waiter \<times> js_error option list" where
  "once_callback w arg =
     (if called w then (w, []) else (w\<lparr>called := True, timer := False\<rparr>, [arg]))"

fun deliver :: "nat \<Rightarrow> waiter \<Rightarrow> conn_event \<Rightarrow> waiter \<times> js_error option list" where
  "deliver t w EmitConnected = once_callback w None"
| "deliver t w (EmitError e) = once_callback w (Some e)"
| "deliver t w TimerFires =
     (if timer w then once_callback (w\<lparr>timer := False\<rparr>) (Some (TimedOut t)) else (w, []))"

fun deliveries :: "nat \<Rightarrow> waiter \<Rightarrow> conn_event list \<Rightarrow> waiter \<times> js_error option list" where
  "deliveries t w [] = (w, [])"
| "deliveries t w (e # es) =
     (case deliver t w e of
        (w', xs) \<Rightarrow> (case deliveries t w' es of (w'', ys) \<Rightarrow> (w'', xs @ ys)))"

text \<open>\<^verbatim>\<open>ZkCxn.prototype.onConnection\<close>.\<close>

definition onConnection :: "zkcxn \<Rightarrow> zkcxn \<times> gate" where
  "onConnection s =
     (if cxnState s = ERROR then (s\<lparr>cxnState := ERROR\<rparr>, Resolved (Some ConnectionInError))
      else if cxnState s = CONNECTED then (s, Resolved None)
      else (s\<lparr>stateEmitter := True\<rparr>, Registered \<lparr>called = False, timer = True\<rparr>))"

text \<open>What a caller of \<^verbatim>\<open>onConnection\<close> gets, given the events that follow the
  registration: nothing yet, or the argument of the one call.\<close>

definition await :: "zkcxn \<Rightarrow> conn_event list \<Rightarrow> zkcxn \<times> js_error option option" where
  "await s evs =
     (case onConnection s of
        (s', Resolved r) \<Rightarrow> (s', Some r)
      | (s', Registered w) \<Rightarrow>
          (case snd (deliveries (timeout s) w evs) of
             [] \<Rightarrow> (s', None)
           | r # _ \<Rightarrow> (s', Some r)))"

subsection \<open>The watch registry\<close>

text \<open>\<^verbatim>\<open>self._watching[path] = self._watching[path] || []; self._watching[path].push(callback)\<close>.\<close>

definition watch_push :: "(string \<rightharpoonup> cont list) \<Rightarrow> string \<Rightarrow> cont \<Rightarrow> (string \<rightharpoonup> cont list)" where
  "watch_push w path c = w(path \<mapsto> (case w path of None \<Rightarrow> [] | Some cs \<Rightarrow> cs) @ [c])"

text \<open>\<^verbatim>\<open>ZkCxn.prototype._exists\<close>.\<close>

definition exists :: "store \<Rightarrow> history \<Rightarrow> string \<Rightarrow> bool \<Rightarrow> history \<times> (js_error + bool)" where
  "exists st h path w =
     (let r = st h (Exists path w);
          h' = h @ [Exists path w]
      in if rc r = ZNONODE then (h', Inr False)
         else if rc r = ZOK then (h', Inr True)
         else (h', Inl (ZkError (rc r))))"

text \<open>\<^verbatim>\<open>ZkCxn.prototype._watch\<close>; \<open>Some e\<close> is the call \<^verbatim>\<open>callback(err)\<close>.\<close>

definition watch :: "store \<Rightarrow> history \<Rightarrow> zkcxn \<Rightarrow> string \<Rightarrow> cont
    \<Rightarrow> history \<times> zkcxn \<times> js_error option" where
  "watch st h s path c =
     (case exists st h path True of
        (h', Inl e) \<Rightarrow> (h', s, Some e)
      | (h', Inr _) \<Rightarrow> (h', s\<lparr>watching := watch_push (watching s) path c\<rparr>, None))"

text \<open>Invoking a continuation: the registry after the pushes it makes.\<close>

definition invoke :: "cont \<Rightarrow> (string \<rightharpoonup> cont list) \<Rightarrow> (string \<rightharpoonup> cont list)" where
  "invoke c w = foldl (\<lambda>w (p, k). watch_push w p k) w (registers c)"

text \<open>
  The \<^verbatim>\<open>on_event_deleted\<close> handler installed by \<^verbatim>\<open>_connect\<close>. The array is taken
  out of the registry before \<^verbatim>\<open>forEach\<close> runs, so nothing in the registry refers
  to it while the continuations run. The second component lists the continuations
  invoked, in the order of the calls.
\<close>

definition on_event_deleted :: "zkcxn \<Rightarrow> string \<Rightarrow> zkcxn \<times> cont list" where
  "on_event_deleted s lock =
     (case watching s lock of
        None \<Rightarrow> (s, [])
      | Some callbacks \<Rightarrow>
          (case foldl (\<lambda>(w, fired) callback. (invoke callback w, fired @ [callback]))
                  ((watching s)(lock := None), []) callbacks of
             (w, fired) \<Rightarrow> (s\<lparr>watching := w\<rparr>, fired)))"

section \<open>Locking\<close>

text \<open>\<^verbatim>\<open>ZkCxn.prototype._getChildren\<close>.\<close>

definition getChildren :: "store \<Rightarrow> history \<Rightarrow> string \<Rightarrow> bool
    \<Rightarrow> history \<times> (js_error + string list)" where
  "getChildren st h path w =
     (let path1 = (if length path > 1 \<and> slice_from path (- 1) = ''/''
                   then slice path 0 (- 1) else path);
          r = st h (GetChildren path1 w);
          h' = h @ [GetChildren path1 w]
      in if rc r \<noteq> ZOK then (h', Inl (StoreMessage (rc r)))
         else (h', Inr (children r)))"

text \<open>The children matching this lock, cut down to what follows the lock name, sorted.\<close>

definition sequenceNumbers :: "string \<Rightarrow> string list \<Rightarrow> string list" where
  "sequenceNumbers lockname chs =
     js_sort (map (\<lambda>n. slice_from n (int (length lockname)))
                  (filter (\<lambda>n. contains n lockname) chs))"

text \<open>
  How one pass of the function given to \<^verbatim>\<open>async.until\<close> ends: the lock is taken and
  the callback called; the callback is called to run the listing again; the callback
  is queued in the watch registry; the function returns with the callback neither
  called nor queued; an exception leaves it; the callback is called with an error.
\<close>

datatype step = GotLock | Again | Queued string | NoCallback | Throw js_error | Fail js_error

definition negotiate_once :: "store \<Rightarrow> history \<Rightarrow> zkcxn \<Rightarrow> string \<Rightarrow> string option \<Rightarrow> cont
    \<Rightarrow> history \<times> zkcxn \<times> step" where
  "negotiate_once st h s name node callback =
     (let i = lastIndexOf name CHR ''/'';
          lockname = slice_from name (i + 1);
          lockpath = slice name 0 (i + 1)
      in case getChildren st h lockpath False of
           (h1, listing) \<Rightarrow>
             (case node of
                None \<Rightarrow> (h1, s, Throw TypeError)
              | Some nd \<Rightarrow>
                  (let position = slice_from nd (int (length lockpath + length lockname))
                   in case listing of
                        Inl err \<Rightarrow> (h1, s, Throw TypeError)
                      | Inr chs \<Rightarrow>
                          (let seqs = sequenceNumbers lockname chs
                           in if at_index seqs 0 = Some position
                              then (h1, s\<lparr>locks := (locks s)(name \<mapsto> nd)\<rparr>, GotLock)
                              else (case at_index seqs (indexOf_sorted seqs position - 1) of
                                      None \<Rightarrow> (h1, s, NoCallback)
                                    | Some nextLowest \<Rightarrow>
                                        if nextLowest = [] then (h1, s, NoCallback)
                                        else (let nl = lockpath @ lockname @ nextLowest
                                              in case exists st h1 nl True of
                                                   (h2, Inr True) \<Rightarrow>
                                                     (case watch st h2 s nl callback of
                                                        (h3, s', Some e) \<Rightarrow> (h3, s', Fail e)
                                                      | (h3, s', None) \<Rightarrow> (h3, s', Queued nl))
                                                 | (h2, _) \<Rightarrow> (h2, s, Again)))))))"

text \<open>
  \<^verbatim>\<open>async.until\<close> around it. The first argument bounds the number of passes looked
  at; a pass that queues its callback, or drops it, ends what this call does.
\<close>

fun negotiateLock :: "nat \<Rightarrow> store \<Rightarrow> history \<Rightarrow> zkcxn \<Rightarrow> string \<Rightarrow> string option
    \<Rightarrow> history \<times> zkcxn \<times> unit outcome" where
  "negotiateLock 0 st h s name node = (h, s, Pending StillNegotiating)"
| "negotiateLock (Suc n) st h s name node =
     (case negotiate_once st h s name node (Cont n []) of
        (h', s', GotLock) \<Rightarrow> (h', s', Success ())
      | (h', s', Again) \<Rightarrow> negotiateLock n st h' s' name node
      | (h', s', Queued p) \<Rightarrow> (h', s', Pending (ForDeletion p))
      | (h', s', NoCallback) \<Rightarrow> (h', s', Pending ForNothing)
      | (h', s', Throw e) \<Rightarrow> (h', s', Uncaught e)
      | (h', s', Fail e) \<Rightarrow> (h', s', Failure e))"

text \<open>\<^verbatim>\<open>ZkCxn.prototype.lock\<close>: the gate, then the three tasks of \<^verbatim>\<open>async.auto\<close> in
  their order of dependency.\<close>

definition lock :: "nat \<Rightarrow> store \<Rightarrow> history \<Rightarrow> zkcxn \<Rightarrow> string \<Rightarrow> string \<Rightarrow> conn_event list
    \<Rightarrow> history \<times> zkcxn \<times> unit outcome" where
  "lock fuel st h s name txnId evs =
     (let lockpath = slice name 0 (lastIndexOf name CHR ''/'' + 1)
      in case await s evs of
           (s1, None) \<Rightarrow> (h, s1, Pending ForConnection)
         | (s1, Some (Some err)) \<Rightarrow> (h, s1, Failure err)
         | (s1, Some None) \<Rightarrow>
             (case createPath st h lockpath txnId [] of
                (h1, Some err) \<Rightarrow> (h1, s1, Failure err)
              | (h1, None) \<Rightarrow>
                  (case create st h1 name txnId [ZOO_SEQUENCE, ZOO_EPHEMERAL] of
                     (h2, Inl err) \<Rightarrow> (h2, s1, Failure err)
                   | (h2, Inr node) \<Rightarrow> negotiateLock fuel st h2 s1 name node)))"


section \<open>The connection registry\<close>

text \<open>How the callback of \<^verbatim>\<open>_connect\<close> is left: called, handed to \<^verbatim>\<open>onConnection\<close>,
  or kept for the store's \<^verbatim>\<open>on_connected\<close> event.\<close>

datatype connecting = Answered "js_error option" | Waits waiter | UntilConnected

text \<open>\<^verbatim>\<open>ZkCxn.prototype._connect\<close>.\<close>

definition connect :: "zkcxn \<Rightarrow> zkcxn \<times> connecting" where
  "connect s =
     (if cxnState s = CONNECTING then
        (case onConnection s of
           (s', Resolved r) \<Rightarrow> (s', Answered r)
         | (s', Registered w) \<Rightarrow> (s', Waits w))
      else if cxnState s = CONNECTED then (s, Answered None)
      else if zk s then (s\<lparr>cxnState := ERROR\<rparr>, Answered (Some ConnectionClosed))
      else (s\<lparr>cxnState := CONNECTING, zk := True, stateEmitter := True\<rparr>, UntilConnected))"

text \<open>\<^verbatim>\<open>ZkCxn.prototype._close\<close>: \<^verbatim>\<open>this._zk.close()\<close> throws when the handle is
  \<^verbatim>\<open>null\<close>.\<close>

definition underscore_close :: "zkcxn \<Rightarrow> zkcxn \<times> unit outcome" where
  "underscore_close s =
     (let s1 = s\<lparr>cxnState := CLOSED\<rparr>
      in if zk s1 then (s1, Success ()) else (s1, Uncaught TypeError))"

text \<open>
  \<^verbatim>\<open>ZkCxn.prototype.close\<close>. A session that is \<^verbatim>\<open>CLOSED\<close> puts \<^verbatim>\<open>_close\<close> behind
  \<^verbatim>\<open>onConnection\<close>: the call returns, and \<^verbatim>\<open>_close\<close> runs when the first of the
  events that follow resolves the gate, reading \<^verbatim>\<open>this._zk\<close> then. Otherwise \<^verbatim>\<open>_close\<close>
  runs within the call. The result says which, and what \<^verbatim>\<open>_close\<close> came to.
\<close>

datatype moment = InCall | AfterCall

definition close :: "zkcxn \<Rightarrow> conn_event list \<Rightarrow> zkcxn \<times> moment \<times> unit outcome" where
  "close s evs =
     (if cxnState s = CLOSED then
        (case await s evs of
           (s', None) \<Rightarrow> (s', AfterCall, Pending ForConnection)
         | (s', Some r) \<Rightarrow>
             (case underscore_close s' of (s'', res) \<Rightarrow> (s'', AfterCall, res)))
      else (case underscore_close s of (s', res) \<Rightarrow> (s', InCall, res)))"




definition DEFAULT_ZK_CXN_TIMEOUT :: nat where
  "DEFAULT_ZK_CXN_TIMEOUT = 8000"

text \<open>
  The module variable \<^verbatim>\<open>cxns\<close>, with its keys in insertion order. A session object
  has an identity: the number of sessions constructed before it.
\<close>

record registry =
  cxns :: "(string \<times> nat \<times> zkcxn) list"
  constructed :: nat

text \<open>\<^verbatim>\<open>obj[k] = v\<close>: an existing key keeps its place in the order of insertion, a new
  key goes last.\<close>

fun assign :: "(string \<times> 'a) list \<Rightarrow> string \<Rightarrow> 'a \<Rightarrow> (string \<times> 'a) list" where
  "assign [] k v = [(k, v)]"
| "assign ((k', v') # kvs) k v =
     (if k' = k then (k, v) # kvs else (k', v') # assign kvs k v)"

text \<open>
  \<^verbatim>\<open>exports.getCxn\<close>; a timeout that is missing or 0 is replaced by the default. When
  \<^verbatim>\<open>cxns[urls]\<close> finds an inherited property, \<^verbatim>\<open>cxn\<close> is not a session and the call
  \<^verbatim>\<open>cxn._connect(...)\<close> throws before anything is stored.
\<close>

definition getCxn :: "registry \<Rightarrow> string list \<Rightarrow> nat option
    \<Rightarrow> js_error + registry \<times> nat \<times> zkcxn" where
  "getCxn g zkUrls cxnTimeout =
     (let u = join zkUrls '','';
          t = (case cxnTimeout of
                 None \<Rightarrow> DEFAULT_ZK_CXN_TIMEOUT
               | Some n \<Rightarrow> if n = 0 then DEFAULT_ZK_CXN_TIMEOUT else n)
      in case property (map_of (cxns g)) u of
           Some (Inherited k) \<Rightarrow> Inl TypeError
         | Some (Own (i, cxn)) \<Rightarrow>
             (let cxn1 = fst (connect cxn)
              in Inr (g\<lparr>cxns := assign (cxns g) u (i, cxn1)\<rparr>, i, cxn1))
         | None \<Rightarrow>
             (let cxn1 = fst (connect (ZkCxn u t))
              in Inr (\<lparr>cxns = assign (cxns g) u (constructed g, cxn1),
                       constructed = Suc (constructed g)\<rparr>,
                      constructed g, cxn1)))"


section \<open>Notions used to state the properties\<close>

text \<open>The return codes that \<^verbatim>\<open>_create\<close> lets pass.\<close>

definition tolerated :: "zk_rc \<Rightarrow> bool" where
  "tolerated r = (r = ZOK \<or> r = ZNODEEXISTS)"

text \<open>The \<^verbatim>\<open>a_create\<close> calls for a list of paths.\<close>

definition creates :: "string \<Rightarrow> zk_flag list \<Rightarrow> string list \<Rightarrow> store_op list" where
  "creates v f ps = map (\<lambda>p. Create p v f) ps"

text \<open>The non-empty segments of a path.\<close>

definition segments :: "string \<Rightarrow> string list" where
  "segments path = filter (\<lambda>i. i \<noteq> []) (js_split path CHR ''/'')"

text \<open>The continuations that the continuations \<open>cs\<close> push for path \<open>q\<close>, in order.\<close>

definition registered_on :: "string \<Rightarrow> cont list \<Rightarrow> cont list" where
  "registered_on q cs = concat (map (\<lambda>c. map snd (filter (\<lambda>(p, k). p = q) (registers c))) cs)"

text \<open>A registry entry after more continuations have been pushed to it.\<close>

definition extended :: "cont list option \<Rightarrow> cont list \<Rightarrow> cont list option" where
  "extended entry new =
     (if new = [] then entry else Some ((case entry of None \<Rightarrow> [] | Some old \<Rightarrow> old) @ new))"

text \<open>A sequence number as the store writes it: decimal digits, in a given width.\<close>

definition seq_width :: "nat \<Rightarrow> string \<Rightarrow> bool" where
  "seq_width w s = (length s = w \<and> list_all digit s)"

text \<open>The suffixes before they are sorted.\<close>

definition suffixes :: "string \<Rightarrow> string list \<Rightarrow> string list" where
  "suffixes lockname chs =
     map (\<lambda>n. slice_from n (int (length lockname))) (filter (\<lambda>n. contains n lockname) chs)"

text \<open>A store that gives the same reply to every call.\<close>

definition constant_store :: "reply \<Rightarrow> store" where
  "constant_store r h op = r"

text \<open>A store in which creation succeeds, a sequence node getting the suffix
  \<^verbatim>\<open>0000000001\<close>, and every listing of children has the given return code and names.\<close>

definition listing_store :: "zk_rc \<Rightarrow> string list \<Rightarrow> store" where
  "listing_store r names h op =
     (case op of
        Create p v f \<Rightarrow>
          \<lparr>rc = ZOK,
           stat = Some (if ZOO_SEQUENCE \<in> set f then p @ ''0000000001'' else p),
           children = []\<rparr>
      | GetChildren p w \<Rightarrow> \<lparr>rc = r, stat = None, children = names\<rparr>
      | _ \<Rightarrow> \<lparr>rc = ZOK, stat = None, children = []\<rparr>)"

text \<open>
  A registry as calls of \<^verbatim>\<open>getCxn\<close> build it: every registered session was
  constructed earlier, and one that is not \<^verbatim>\<open>CLOSED\<close> holds a store handle.
\<close>

definition registry_ok :: "registry \<Rightarrow> bool" where
  "registry_ok g =
     list_all (\<lambda>(u, i, c). i < constructed g \<and> (cxnState c = CLOSED \<or> zk c)) (cxns g)"






section \<open>Creating a path: properties\<close>

lemma ancestors_slash: "p \<in> set (ancestors parts) \<Longrightarrow> at_index p 0 = Some CHR ''/''"
  by (auto simp: ancestors_def at_index_def)

lemma length_ancestors: "length (ancestors parts) = length parts"
  unfolding ancestors_def by (simp del: upt_Suc)

lemma nth_ancestors:
  "k < length parts \<Longrightarrow> ancestors parts ! k = ''/'' @ join (take (Suc k) parts) ''/''"
  unfolding ancestors_def by (simp del: upt_Suc add: nth_map_upt)

lemma create_tolerated:
  "at_index p 0 = Some CHR ''/'' \<Longrightarrow> tolerated (rc (st h (Create p v f)))
    \<Longrightarrow> create st h p v f = (h @ [Create p v f], Inr (stat (st h (Create p v f))))"
  by (auto simp: create_def tolerated_def Let_def)

lemma create_refused:
  "at_index p 0 = Some CHR ''/'' \<Longrightarrow> \<not> tolerated (rc (st h (Create p v f)))
    \<Longrightarrow> create st h p v f = (h @ [Create p v f], Inl (StoreMessage (rc (st h (Create p v f)))))"
  by (auto simp: create_def tolerated_def Let_def)

lemma forEachSeries_create_ok:
  assumes "\<forall>p\<in>set ps. at_index p 0 = Some CHR ''/''"
    and "\<forall>k<length ps. tolerated (rc (st (h @ creates v f (take k ps)) (Create (ps ! k) v f)))"
  shows "forEachSeries ps (\<lambda>h p. create st h p v f) h = (h @ creates v f ps, None)"
  using assms
proof (induction ps arbitrary: h)
  case Nil
  then show ?case by (simp add: creates_def)
next
  case (Cons p ps)
  from Cons.prems(2) have ok0: "tolerated (rc (st h (Create p v f)))"
    by (fastforce simp: creates_def)
  have rest: "\<forall>k<length ps. tolerated (rc (st ((h @ [Create p v f]) @ creates v f (take k ps)) (Create (ps ! k) v f)))"
  proof (intro allI impI)
    fix k assume "k < length ps"
    then have "Suc k < length (p # ps)" by simp
    with Cons.prems(2) have "tolerated (rc (st (h @ creates v f (take (Suc k) (p # ps))) (Create ((p # ps) ! Suc k) v f)))"
      by blast
    then show "tolerated (rc (st ((h @ [Create p v f]) @ creates v f (take k ps)) (Create (ps ! k) v f)))"
      by (simp add: creates_def)
  qed
  from Cons.prems(1) have v: "at_index p 0 = Some CHR ''/''" "\<forall>p\<in>set ps. at_index p 0 = Some CHR ''/''" by simp_all
  have "forEachSeries ps (\<lambda>h p. create st h p v f) (h @ [Create p v f]) = ((h @ [Create p v f]) @ creates v f ps, None)"
    by (rule Cons.IH[OF v(2) rest])
  with ok0 v(1) show ?case by (simp add: create_tolerated creates_def)
qed

lemma forEachSeries_create_abort:
  assumes "\<forall>p\<in>set ps. at_index p 0 = Some CHR ''/''"
    and "k < length ps"
    and "\<forall>j<k. tolerated (rc (st (h @ creates v f (take j ps)) (Create (ps ! j) v f)))"
    and "\<not> tolerated (rc (st (h @ creates v f (take k ps)) (Create (ps ! k) v f)))"
  shows "forEachSeries ps (\<lambda>h p. create st h p v f) h =
           (h @ creates v f (take (Suc k) ps),
            Some (StoreMessage (rc (st (h @ creates v f (take k ps)) (Create (ps ! k) v f)))))"
  using assms
proof (induction ps arbitrary: h k)
  case Nil
  then show ?case by simp
next
  case (Cons p ps)
  from Cons.prems(1) have v: "at_index p 0 = Some CHR ''/''" "\<forall>p\<in>set ps. at_index p 0 = Some CHR ''/''" by simp_all
  show ?case
  proof (cases k)
    case 0
    with Cons.prems(4) have "\<not> tolerated (rc (st h (Create p v f)))" by (simp add: creates_def)
    with v(1) 0 show ?thesis by (simp add: create_refused creates_def)
  next
    case (Suc m)
    from Cons.prems(3) Suc have ok0: "tolerated (rc (st h (Create p v f)))"
      by (fastforce simp: creates_def)
    from Cons.prems(2) Suc have m: "m < length ps" by simp
    have before: "\<forall>j<m. tolerated (rc (st ((h @ [Create p v f]) @ creates v f (take j ps)) (Create (ps ! j) v f)))"
    proof (intro allI impI)
      fix j assume "j < m"
      then have "Suc j < k" using Suc by simp
      with Cons.prems(3) have "tolerated (rc (st (h @ creates v f (take (Suc j) (p # ps))) (Create ((p # ps) ! Suc j) v f)))"
        by blast
      then show "tolerated (rc (st ((h @ [Create p v f]) @ creates v f (take j ps)) (Create (ps ! j) v f)))"
        by (simp add: creates_def)
    qed
    from Cons.prems(4) Suc
    have at: "\<not> tolerated (rc (st ((h @ [Create p v f]) @ creates v f (take m ps)) (Create (ps ! m) v f)))"
      by (simp add: creates_def)
    have "forEachSeries ps (\<lambda>h p. create st h p v f) (h @ [Create p v f]) =
           ((h @ [Create p v f]) @ creates v f (take (Suc m) ps),
            Some (StoreMessage (rc (st ((h @ [Create p v f]) @ creates v f (take m ps)) (Create (ps ! m) v f)))))"
      by (rule Cons.IH[OF v(2) m before at])
    with ok0 v(1) Suc show ?thesis by (simp add: create_tolerated creates_def)
  qed
qed

lemma createPath_segments:
  "createPath st h path v f =
     forEachSeries (ancestors (segments path)) (\<lambda>h p. create st h p v f) h"
proof (cases path)
  case Nil
  then show ?thesis by (simp add: createPath_def segments_def ancestors_def at_index_def)
next
  case (Cons c cs)
  show ?thesis
  proof (cases "c = CHR ''/''")
    case True
    show ?thesis
    proof (cases cs)
      case Nil
      with Cons True show ?thesis
        by (simp add: createPath_def segments_def ancestors_def at_index_def)
    next
      case (Cons d ds)
      with \<open>path = c # cs\<close> True show ?thesis
        by (simp add: createPath_def segments_def at_index_def Let_def)
    qed
  next
    case False
    with Cons show ?thesis
      by (simp add: createPath_def segments_def at_index_def Let_def)
  qed
qed

lemma segments_leading: "segments (CHR ''/'' # p) = segments p"
  by (simp add: segments_def)

text \<open>
  Claim C8. \<^verbatim>\<open>_createPath\<close> does nothing and succeeds on the empty path and on
  \<^verbatim>\<open>/\<close>; a leading separator makes no difference; otherwise the ancestors of the
  path, each the join of one more segment, are created one after the other from the
  front. When the store answers every creation with \<^verbatim>\<open>ZOK\<close> or \<^verbatim>\<open>ZNODEEXISTS\<close>, all
  of them are created and the result is success. At the first other answer the
  sequence stops there and that error is the result.
\<close>

theorem createPath_sequential:
  "createPath st h [] v f = (h, None) \<and>
   createPath st h ''/'' v f = (h, None) \<and>
   createPath st h (CHR ''/'' # path) v f = createPath st h path v f \<and>
   (let ps = ancestors (segments path);
        answer = (\<lambda>k. rc (st (h @ creates v f (take k ps)) (Create (ps ! k) v f)))
    in ps = map (\<lambda>k. ''/'' @ join (take (Suc k) (segments path)) ''/'') [0..<length (segments path)] \<and>
       ((\<forall>k<length ps. tolerated (answer k)) \<longrightarrow>
          createPath st h path v f = (h @ creates v f ps, None)) \<and>
       (\<forall>k<length ps. (\<forall>j<k. tolerated (answer j)) \<and> \<not> tolerated (answer k) \<longrightarrow>
          createPath st h path v f =
            (h @ creates v f (take (Suc k) ps), Some (StoreMessage (answer k)))))"
proof -
  have a: "createPath st h [] v f = (h, None)"
    by (simp add: createPath_def at_index_def)
  have b: "createPath st h ''/'' v f = (h, None)"
    by (simp add: createPath_def at_index_def)
  have c: "createPath st h (CHR ''/'' # path) v f = createPath st h path v f"
    by (simp only: createPath_segments segments_leading)
  have valid: "\<forall>p\<in>set (ancestors (segments path)). at_index p 0 = Some CHR ''/''"
    by (simp add: ancestors_slash)
  have d: "ancestors (segments path) =
      map (\<lambda>k. ''/'' @ join (take (Suc k) (segments path)) ''/'') [0..<length (segments path)]"
    by (rule nth_equalityI) (simp_all add: length_ancestors nth_ancestors)
  show ?thesis
    unfolding Let_def
    using a b c d forEachSeries_create_ok[OF valid, of st h v f]
      forEachSeries_create_abort[OF valid, of _ st h v f]
    by (simp add: createPath_segments)
qed


theorem createPath_sequential_witness:
  "createPath (constant_store \<lparr>rc = ZNODEEXISTS, stat = None, children = []\<rparr>) [] ''/foo/bar'' ''v'' [] =
     ([Create ''/foo'' ''v'' [], Create ''/foo/bar'' ''v'' []], None) \<and>
   createPath (constant_store \<lparr>rc = ZFAIL (- 4), stat = None, children = []\<rparr>) [] ''/foo/bar'' ''v'' [] =
     ([Create ''/foo'' ''v'' []], Some (StoreMessage (ZFAIL (- 4))))"
proof -
  have seg: "segments ''foo/bar'' = [''foo'', ''bar'']"
    by (simp add: segments_def)
  have anc: "ancestors [''foo'', ''bar''] = [''/foo'', ''/foo/bar'']"
    by (simp add: ancestors_def)
  have one: "createPath (constant_store \<lparr>rc = ZNODEEXISTS, stat = None, children = []\<rparr>) [] ''/foo/bar'' ''v'' [] =
     ([Create ''/foo'' ''v'' [], Create ''/foo/bar'' ''v'' []], None)"
    using createPath_sequential[where st = "constant_store \<lparr>rc = ZNODEEXISTS, stat = None, children = []\<rparr>"
        and h = "[]" and path = "''foo/bar''" and v = "''v''" and f = "[]"]
    by (simp add: seg anc tolerated_def creates_def constant_store_def)
  have two: "createPath (constant_store \<lparr>rc = ZFAIL (- 4), stat = None, children = []\<rparr>) [] ''/foo/bar'' ''v'' [] =
     ([Create ''/foo'' ''v'' []], Some (StoreMessage (ZFAIL (- 4))))"
    using createPath_sequential[where st = "constant_store \<lparr>rc = ZFAIL (- 4), stat = None, children = []\<rparr>"
        and h = "[]" and path = "''foo/bar''" and v = "''v''" and f = "[]"]
    apply (simp add: seg anc tolerated_def creates_def constant_store_def)
    apply (elim conjE)
    apply (drule_tac x = 0 in spec)
    apply simp
    done
  from one two show ?thesis by simp
qed

section \<open>Waiting for the connection: properties\<close>

lemma deliveries_spent:
  "called w \<Longrightarrow> \<not> timer w \<Longrightarrow> deliveries t w es = (w, [])"
proof (induction es)
  case Nil
  then show ?case by simp
next
  case (Cons e es)
  then have "deliver t w e = (w, [])"
    by (cases e) (simp_all add: once_callback_def)
  with Cons show ?case by simp
qed

text \<open>
  Claim C5. A callback given to \<^verbatim>\<open>onConnection\<close> while the session is neither
  \<^verbatim>\<open>CONNECTED\<close> nor \<^verbatim>\<open>ERROR\<close> is registered with its timer pending and is not called
  before an event reaches it. Whatever events follow, it is called exactly once, by
  the first of them: with no error by the \<^verbatim>\<open>CONNECTED\<close> event, with the emitted error
  by the \<^verbatim>\<open>ERROR\<close> event, with the timeout error by the timer. All later events are
  suppressed, and after the first one the timer is no longer pending.
\<close>

theorem onConnection_once:
  assumes "cxnState s \<noteq> CONNECTED" and "cxnState s \<noteq> ERROR"
  shows "snd (onConnection s) = Registered \<lparr>called = False, timer = True\<rparr> \<and>
    deliveries (timeout s) \<lparr>called = False, timer = True\<rparr> [] = (\<lparr>called = False, timer = True\<rparr>, []) \<and>
    (\<forall>es. deliveries (timeout s) \<lparr>called = False, timer = True\<rparr> (EmitConnected # es) =
            (\<lparr>called = True, timer = False\<rparr>, [None])) \<and>
    (\<forall>e es. deliveries (timeout s) \<lparr>called = False, timer = True\<rparr> (EmitError e # es) =
            (\<lparr>called = True, timer = False\<rparr>, [Some e])) \<and>
    (\<forall>es. deliveries (timeout s) \<lparr>called = False, timer = True\<rparr> (TimerFires # es) =
            (\<lparr>called = True, timer = False\<rparr>, [Some (TimedOut (timeout s))]))"
  using assms
  by (simp add: onConnection_def once_callback_def deliveries_spent)

theorem onConnection_once_witness:
  "snd (onConnection (ZkCxn ''127.0.0.1:2181'' 500)) = Registered \<lparr>called = False, timer = True\<rparr> \<and>
   deliveries 500 \<lparr>called = False, timer = True\<rparr> [EmitError Reconnecting, EmitConnected, TimerFires] =
     (\<lparr>called = True, timer = False\<rparr>, [Some Reconnecting]) \<and>
   deliveries 500 \<lparr>called = False, timer = True\<rparr> [TimerFires, EmitConnected] =
     (\<lparr>called = True, timer = False\<rparr>, [Some (TimedOut 500)])"
proof -
  have st: "cxnState (ZkCxn ''127.0.0.1:2181'' 500) \<noteq> CONNECTED"
    "cxnState (ZkCxn ''127.0.0.1:2181'' 500) \<noteq> ERROR"
    by (simp_all add: ZkCxn_def)
  have tm: "timeout (ZkCxn ''127.0.0.1:2181'' 500) = 500"
    by (simp add: ZkCxn_def)
  from onConnection_once[OF st] show ?thesis
    unfolding tm by blast
qed

section \<open>The watch registry: properties\<close>

lemma extended_append: "extended (extended e a) b = extended e (a @ b)"
  by (auto simp: extended_def split: option.splits)

lemma pushes_entry:
  "foldl (\<lambda>w (p, k). watch_push w p k) w rs q =
     extended (w q) (map snd (filter (\<lambda>(p, k). p = q) rs))"
proof (induction rs arbitrary: w)
  case Nil
  then show ?case by (simp add: extended_def)
next
  case (Cons r rs)
  obtain p k where r: "r = (p, k)" by (cases r)
  show ?case
    by (simp add: r Cons.IH) (auto simp: extended_def watch_push_def split: option.splits)
qed

lemma invoke_entry: "invoke c w q = extended (w q) (registered_on q [c])"
  by (simp add: invoke_def registered_on_def pushes_entry)

lemma registered_on_Cons:
  "registered_on q (c # cs) = registered_on q [c] @ registered_on q cs"
  by (simp add: registered_on_def)

lemma invoke_all_entry:
  "foldl (\<lambda>w c. invoke c w) w cs q = extended (w q) (registered_on q cs)"
proof (induction cs arbitrary: w)
  case Nil
  then show ?case by (simp add: extended_def registered_on_def)
next
  case (Cons c cs)
  have "foldl (\<lambda>w c. invoke c w) w (c # cs) q = extended (invoke c w q) (registered_on q cs)"
    by (simp add: Cons.IH)
  also have "\<dots> = extended (w q) (registered_on q [c] @ registered_on q cs)"
    by (simp add: invoke_entry extended_append)
  finally show ?case by (simp add: registered_on_Cons[of q c cs])
qed

lemma fan_out_fold:
  "foldl (\<lambda>(w, fired) callback. (invoke callback w, fired @ [callback])) (w0, f0) cs =
     (foldl (\<lambda>w c. invoke c w) w0 cs, f0 @ cs)"
  by (induction cs arbitrary: w0 f0) simp_all

lemma on_event_deleted_Some:
  "watching s p = Some cs \<Longrightarrow>
     on_event_deleted s p =
       (s\<lparr>watching := foldl (\<lambda>w c. invoke c w) ((watching s)(p := None)) cs\<rparr>, cs)"
  by (simp add: on_event_deleted_def fan_out_fold)

lemma registered_on_none: "\<forall>c\<in>set cs. registers c = [] \<Longrightarrow> registered_on q cs = []"
  by (induction cs) (simp_all add: registered_on_def)

lemma watch_appends:
  "snd (snd (watch st h s p c)) = None \<Longrightarrow>
     watching (fst (snd (watch st h s p c))) p =
       Some ((case watching s p of None \<Rightarrow> [] | Some cs \<Rightarrow> cs) @ [c])"
  by (auto simp: watch_def watch_push_def split: prod.splits sum.splits)

text \<open>
  Claim C6. A node-deleted event for a path without an entry changes nothing and
  invokes nothing. For a path with an entry, the continuations invoked are exactly
  the queued ones, each once, in the order of the list; a successful \<^verbatim>\<open>_watch\<close> puts
  its continuation at the end of that list, so this is the order of registration.
  When the continuations push nothing themselves, the session afterwards is the one
  before with the entry removed.
\<close>

theorem deleted_drains_entry:
  "(watching s p = None \<longrightarrow> on_event_deleted s p = (s, [])) \<and>
   (\<forall>cs. watching s p = Some cs \<longrightarrow>
      snd (on_event_deleted s p) = cs \<and>
      ((\<forall>c\<in>set cs. registers c = []) \<longrightarrow>
         fst (on_event_deleted s p) = s\<lparr>watching := (watching s)(p := None)\<rparr>)) \<and>
   (\<forall>st h c. snd (snd (watch st h s p c)) = None \<longrightarrow>
      watching (fst (snd (watch st h s p c))) p =
        Some ((case watching s p of None \<Rightarrow> [] | Some cs \<Rightarrow> cs) @ [c]))"
proof (intro conjI allI impI)
  assume "watching s p = None"
  then show "on_event_deleted s p = (s, [])" by (simp add: on_event_deleted_def)
next
  fix cs assume "watching s p = Some cs"
  then show "snd (on_event_deleted s p) = cs" by (simp add: on_event_deleted_Some)
next
  fix cs assume e: "watching s p = Some cs" and n: "\<forall>c\<in>set cs. registers c = []"
  have "foldl (\<lambda>w c. invoke c w) ((watching s)(p := None)) cs = (watching s)(p := None)"
    by (rule ext) (simp add: invoke_all_entry registered_on_none[OF n] extended_def)
  with e show "fst (on_event_deleted s p) = s\<lparr>watching := (watching s)(p := None)\<rparr>"
    by (simp add: on_event_deleted_Some)
next
  fix st h c assume "snd (snd (watch st h s p c)) = None"
  then show "watching (fst (snd (watch st h s p c))) p =
        Some ((case watching s p of None \<Rightarrow> [] | Some cs \<Rightarrow> cs) @ [c])"
    by (rule watch_appends)
qed

theorem deleted_drains_entry_witness:
  "on_event_deleted (ZkCxn ''u'' 500) ''/a/lock1'' = (ZkCxn ''u'' 500, []) \<and>
   on_event_deleted ((ZkCxn ''u'' 500)\<lparr>watching := [''/a/lock1'' \<mapsto> [Cont 1 [], Cont 2 []]]\<rparr>) ''/a/lock1'' =
     (ZkCxn ''u'' 500, [Cont 1 [], Cont 2 []]) \<and>
   watching (fst (snd (watch (constant_store \<lparr>rc = ZOK, stat = None, children = []\<rparr>) []
       ((ZkCxn ''u'' 500)\<lparr>watching := [''/a/lock1'' \<mapsto> [Cont 1 []]]\<rparr>) ''/a/lock1'' (Cont 2 []))))
     ''/a/lock1'' = Some [Cont 1 [], Cont 2 []]"
proof -
  let ?s = "ZkCxn ''u'' 500"
  let ?s2 = "?s\<lparr>watching := [''/a/lock1'' \<mapsto> [Cont 1 [], Cont 2 []]]\<rparr>"
  let ?s1 = "?s\<lparr>watching := [''/a/lock1'' \<mapsto> [Cont 1 []]]\<rparr>"
  let ?st = "constant_store \<lparr>rc = ZOK, stat = None, children = []\<rparr>"
  have none: "watching ?s ''/a/lock1'' = None" by (simp add: ZkCxn_def)
  have a: "on_event_deleted ?s ''/a/lock1'' = (?s, [])"
    using deleted_drains_entry[of ?s "''/a/lock1''"] none by blast
  have some: "watching ?s2 ''/a/lock1'' = Some [Cont 1 [], Cont 2 []]" by simp
  have quiet: "\<forall>c\<in>set [Cont 1 [], Cont 2 []]. registers c = []" by simp
  have "snd (on_event_deleted ?s2 ''/a/lock1'') = [Cont 1 [], Cont 2 []] \<and>
        fst (on_event_deleted ?s2 ''/a/lock1'') = ?s2\<lparr>watching := (watching ?s2)(''/a/lock1'' := None)\<rparr>"
    using deleted_drains_entry[of ?s2 "''/a/lock1''"] some quiet by blast
  then have b: "on_event_deleted ?s2 ''/a/lock1'' = (?s, [Cont 1 [], Cont 2 []])"
    by (simp add: prod_eq_iff ZkCxn_def)
  have ok: "snd (snd (watch ?st [] ?s1 ''/a/lock1'' (Cont 2 []))) = None"
    by (simp add: watch_def exists_def constant_store_def)
  have c: "watching (fst (snd (watch ?st [] ?s1 ''/a/lock1'' (Cont 2 [])))) ''/a/lock1'' =
      Some [Cont 1 [], Cont 2 []]"
    using deleted_drains_entry[of ?s1 "''/a/lock1''"] ok by simp
  from a b c show ?thesis by blast
qed

text \<open>
  Claim C10. The entry is removed before the first continuation runs: after the
  event, the entry of the deleted path holds exactly the continuations that were
  pushed for it while the drained ones ran, in the order of the pushes, and it is
  absent when there were none. None of the drained registrations is left. The
  entries of the other paths keep what they had, followed by what was pushed.
\<close>

theorem deleted_keeps_new_watches:
  assumes "watching s p = Some cs"
  shows "snd (on_event_deleted s p) = cs \<and>
    watching (fst (on_event_deleted s p)) p = extended None (registered_on p cs) \<and>
    (\<forall>q. q \<noteq> p \<longrightarrow>
       watching (fst (on_event_deleted s p)) q = extended (watching s q) (registered_on q cs))"
  using assms by (simp add: on_event_deleted_Some invoke_all_entry)

theorem deleted_keeps_new_watches_witness:
  "snd (on_event_deleted ((ZkCxn ''u'' 500)\<lparr>watching :=
       [''/a/lock1'' \<mapsto> [Cont 1 [(''/a/lock1'', Cont 3 [])], Cont 2 [(''/a/lock0'', Cont 4 [])]]]\<rparr>)
     ''/a/lock1'') = [Cont 1 [(''/a/lock1'', Cont 3 [])], Cont 2 [(''/a/lock0'', Cont 4 [])]] \<and>
   watching (fst (on_event_deleted ((ZkCxn ''u'' 500)\<lparr>watching :=
       [''/a/lock1'' \<mapsto> [Cont 1 [(''/a/lock1'', Cont 3 [])], Cont 2 [(''/a/lock0'', Cont 4 [])]]]\<rparr>)
     ''/a/lock1'')) ''/a/lock1'' = Some [Cont 3 []] \<and>
   watching (fst (on_event_deleted ((ZkCxn ''u'' 500)\<lparr>watching :=
       [''/a/lock1'' \<mapsto> [Cont 1 [(''/a/lock1'', Cont 3 [])], Cont 2 [(''/a/lock0'', Cont 4 [])]]]\<rparr>)
     ''/a/lock1'')) ''/a/lock0'' = Some [Cont 4 []]"
proof -
  let ?cs = "[Cont 1 [(''/a/lock1'', Cont 3 [])], Cont 2 [(''/a/lock0'', Cont 4 [])]]"
  let ?s = "(ZkCxn ''u'' 500)\<lparr>watching := [''/a/lock1'' \<mapsto> ?cs]\<rparr>"
  have some: "watching ?s ''/a/lock1'' = Some ?cs" by simp
  have other: "watching ?s ''/a/lock0'' = None" by (simp add: ZkCxn_def)
  have r1: "extended None (registered_on ''/a/lock1'' ?cs) = Some [Cont 3 []]"
    by (simp add: extended_def registered_on_def)
  have r0: "extended None (registered_on ''/a/lock0'' ?cs) = Some [Cont 4 []]"
    by (simp add: extended_def registered_on_def)
  have ne: "''/a/lock0'' \<noteq> ''/a/lock1''" by simp
  from deleted_keeps_new_watches[OF some] ne show ?thesis
    unfolding r1 by (metis other r0)
qed

section \<open>Unlocking: properties\<close>







section \<open>Locking: properties\<close>

lemma lastIndexOf_absent: "c \<notin> set s \<Longrightarrow> lastIndexOf s c = - 1"
  by (induction s) auto

lemma slice_nothing: "slice s 0 0 = []"
  by (simp add: slice_def)

text \<open>
  Claim C4, amended. For a lock path without a separator \<^verbatim>\<open>lock\<close> makes no store
  call. It waits for the connection gate first: when the gate succeeds, the result is
  the error of \<^verbatim>\<open>_create\<close> for a path that does not begin with a slash; when the gate
  fails, the result is the gate's error; and while the gate is undecided nothing is
  reported.
\<close>

theorem lock_without_separator:
  assumes "CHR ''/'' \<notin> set name"
  shows "fst (lock fuel st h s name txnId evs) = h \<and>
    (snd (await s evs) = Some None \<longrightarrow>
       snd (snd (lock fuel st h s name txnId evs)) = Failure InvalidPath) \<and>
    (\<forall>e. snd (await s evs) = Some (Some e) \<longrightarrow>
       snd (snd (lock fuel st h s name txnId evs)) = Failure e) \<and>
    (snd (await s evs) = None \<longrightarrow>
       snd (snd (lock fuel st h s name txnId evs)) = Pending ForConnection)"
proof -
  have i: "lastIndexOf name CHR ''/'' = - 1" by (rule lastIndexOf_absent[OF assms])
  have p: "createPath st h [] txnId [] = (h, None)"
    by (simp add: createPath_def at_index_def)
  have "at_index name 0 \<noteq> Some CHR ''/''"
    using assms by (cases name) (auto simp: at_index_def)
  then have c: "create st h name txnId [ZOO_SEQUENCE, ZOO_EPHEMERAL] = (h, Inl InvalidPath)"
    by (simp add: create_def)
  show ?thesis
    by (cases "await s evs") (auto simp: lock_def i slice_nothing p c split: option.splits)
qed

theorem lock_without_separator_witness:
  "lock 5 (listing_store ZOK []) []
      ((ZkCxn ''127.0.0.1:2181'' 8000)\<lparr>cxnState := CONNECTED, zk := True\<rparr>)
      ''INVALID_PATH'' ''ponies'' [] =
     ([], (ZkCxn ''127.0.0.1:2181'' 8000)\<lparr>cxnState := CONNECTED, zk := True\<rparr>, Failure InvalidPath)"
proof -
  let ?s = "(ZkCxn ''127.0.0.1:2181'' 8000)\<lparr>cxnState := CONNECTED, zk := True\<rparr>"
  have sep: "CHR ''/'' \<notin> set ''INVALID_PATH''" by simp
  have gate: "await ?s [] = (?s, Some None)"
    by (simp add: await_def onConnection_def ZkCxn_def)
  have same: "fst (snd (lock 5 (listing_store ZOK []) [] ?s ''INVALID_PATH'' ''ponies'' [])) = ?s"
    by (simp add: lock_def gate createPath_def create_def at_index_def slice_def)
  from lock_without_separator[OF sep, of 5 "listing_store ZOK []" "[]" ?s "''ponies''" "[]"] gate same
  show ?thesis by (simp add: prod_eq_iff)
qed

text \<open>
  Claim C4 as written fails: with the session in \<^verbatim>\<open>ERROR\<close> the path without a
  separator gets the connection error; with the session still connecting nothing is
  reported at the call, and the timer then reports the timeout.
\<close>

theorem lock_gate_first_counterexample:
  "snd (snd (lock 5 (listing_store ZOK []) []
      ((ZkCxn ''127.0.0.1:2181'' 8000)\<lparr>cxnState := ERROR\<rparr>)
      ''INVALID_PATH'' ''ponies'' [])) = Failure ConnectionInError \<and>
   snd (snd (lock 5 (listing_store ZOK []) []
      ((ZkCxn ''127.0.0.1:666'' 500)\<lparr>cxnState := CONNECTING, zk := True, stateEmitter := True\<rparr>)
      ''INVALID_PATH'' ''ponies'' [])) = Pending ForConnection \<and>
   snd (snd (lock 5 (listing_store ZOK []) []
      ((ZkCxn ''127.0.0.1:666'' 500)\<lparr>cxnState := CONNECTING, zk := True, stateEmitter := True\<rparr>)
      ''INVALID_PATH'' ''ponies'' [TimerFires])) = Failure (TimedOut 500)"
  by (simp add: lock_def await_def onConnection_def ZkCxn_def once_callback_def)

subsection \<open>The order of the sequence numbers\<close>

lemma digit_range: "digit c \<Longrightarrow> 48 \<le> (of_char c :: nat) \<and> (of_char c :: nat) \<le> 57"
  by (simp add: digit_def less_eq_char_def)

lemma foldl_decimal:
  "foldl (\<lambda>a c. 10 * a + (of_char c - 48)) a s =
     a * 10 ^ length s + foldl (\<lambda>a c. 10 * a + (of_char c - 48)) (0::nat) s"
proof (induction s arbitrary: a)
  case Nil
  then show ?case by simp
next
  case (Cons c s)
  have "foldl (\<lambda>a c. 10 * a + (of_char c - 48)) a (c # s) =
        (10 * a + (of_char c - 48)) * 10 ^ length s + foldl (\<lambda>a c. 10 * a + (of_char c - 48)) (0::nat) s"
    by (simp add: Cons.IH[of "10 * a + (of_char c - 48)"])
  moreover have "foldl (\<lambda>a c. 10 * a + (of_char c - 48)) (0::nat) (c # s) =
        (of_char c - 48) * 10 ^ length s + foldl (\<lambda>a c. 10 * a + (of_char c - 48)) (0::nat) s"
    by (simp add: Cons.IH[of "of_char c - 48"])
  ultimately show ?case by (simp add: algebra_simps)
qed

lemma seq_value_Cons:
  "seq_value (c # s) = (of_char c - 48) * 10 ^ length s + seq_value s"
  unfolding seq_value_def by (simp add: foldl_decimal[of "of_char c - 48"])

lemma seq_value_bound: "list_all digit s \<Longrightarrow> seq_value s < 10 ^ length s"
proof (induction s)
  case Nil
  then show ?case by (simp add: seq_value_def)
next
  case (Cons c s)
  then have d: "(of_char c :: nat) - 48 \<le> 9" and b: "seq_value s < 10 ^ length s"
    using digit_range[of c] by auto
  have "seq_value (c # s) < 9 * 10 ^ length s + 10 ^ length s"
    unfolding seq_value_Cons using d b
    by (meson add_le_less_mono mult_le_mono1)
  then show ?case by simp
qed

lemma seq_order:
  assumes "length s = length t" and "list_all digit s" and "list_all digit t"
  shows "s \<le> t \<longleftrightarrow> seq_value s \<le> seq_value t"
  using assms
proof (induction s t rule: list_induct2)
  case Nil
  then show ?case by simp
next
  case (Cons c s d t)
  let ?n = "length s"
  from Cons.prems have dc: "digit c" and dd: "digit d"
    and ds: "list_all digit s" and dt: "list_all digit t" by simp_all
  have IH: "s \<le> t \<longleftrightarrow> seq_value s \<le> seq_value t" using Cons.IH ds dt by simp
  have bs: "seq_value s < 10 ^ ?n" using seq_value_bound[OF ds] .
  have bt: "seq_value t < 10 ^ ?n" using seq_value_bound[OF dt] Cons.hyps by simp
  let ?a = "(of_char c :: nat) - 48" and ?b = "(of_char d :: nat) - 48"
  have vs: "seq_value (c # s) = ?a * 10 ^ ?n + seq_value s" by (rule seq_value_Cons)
  have vt: "seq_value (d # t) = ?b * 10 ^ ?n + seq_value t"
    using seq_value_Cons[of d t] Cons.hyps by simp
  consider (lt) "c < d" | (eq) "c = d" | (gt) "d < c" by (rule linorder_cases)
  then show ?case
  proof cases
    case lt
    then have "?a < ?b" using digit_range[OF dc] digit_range[OF dd]
      by (simp add: less_char_def)
    then have "Suc ?a * 10 ^ ?n \<le> ?b * 10 ^ ?n"
      by (intro mult_le_mono1) simp
    then have "seq_value (c # s) \<le> seq_value (d # t)"
      unfolding vs vt using bs by simp
    with lt show ?thesis by simp
  next
    case eq
    then show ?thesis unfolding vs vt using IH by simp
  next
    case gt
    then have "?b < ?a" using digit_range[OF dc] digit_range[OF dd]
      by (simp add: less_char_def)
    then have "Suc ?b * 10 ^ ?n \<le> ?a * 10 ^ ?n"
      by (intro mult_le_mono1) simp
    then have "seq_value (d # t) < seq_value (c # s)"
      unfolding vs vt using bt by simp
    moreover from gt have "\<not> c # s \<le> d # t" by auto
    ultimately show ?thesis by simp
  qed
qed

lemma sorted_seq_values:
  assumes "\<forall>x\<in>set xs. seq_width w x"
  shows "sorted (map seq_value (sort xs))"
proof -
  have "sorted_wrt (\<le>) (sort xs)" using sorted_sort[of xs] by simp
  moreover have "\<And>x y. x \<in> set (sort xs) \<Longrightarrow> y \<in> set (sort xs) \<Longrightarrow> x \<le> y
      \<Longrightarrow> seq_value x \<le> seq_value y"
    using assms seq_order by (simp add: seq_width_def)
  ultimately have "sorted_wrt (\<lambda>x y. seq_value x \<le> seq_value y) (sort xs)"
    by (rule sorted_wrt_mono_rel[rotated])
  then show ?thesis by (simp add: sorted_map)
qed

text \<open>
  Claim C1, amended. The suffixes are sorted by \<^verbatim>\<open>sort()\<close> without a comparator, the
  order of the code units. When every suffix is a string of decimal digits of one
  common width, that order is the ascending order of the numbers: the values of the
  sorted suffixes are the sorted values, and the sorted list is a rearrangement of
  the suffixes.
\<close>

theorem sequenceNumbers_fixed_width:
  assumes "\<forall>x\<in>set (suffixes lockname chs). seq_width w x"
  shows "map seq_value (sequenceNumbers lockname chs) = sort (map seq_value (suffixes lockname chs)) \<and>
         mset (sequenceNumbers lockname chs) = mset (suffixes lockname chs)"
proof -
  have eq: "sequenceNumbers lockname chs = sort (suffixes lockname chs)"
    by (simp add: sequenceNumbers_def suffixes_def js_sort_def)
  have "sort (map seq_value (suffixes lockname chs)) = map seq_value (sort (suffixes lockname chs))"
    by (rule properties_for_sort) (simp_all add: sorted_seq_values[OF assms])
  then show ?thesis by (simp add: eq)
qed

theorem sequenceNumbers_fixed_width_witness:
  "map seq_value (sequenceNumbers ''wrench''
      [''wrench0000000010'', ''hammer0000000003'', ''wrench0000000009'']) = [9, 10]"
proof -
  let ?chs = "[''wrench0000000010'', ''hammer0000000003'', ''wrench0000000009'']"
  have su: "suffixes ''wrench'' ?chs = [''0000000010'', ''0000000009'']"
    by code_simp
  have w: "\<forall>x\<in>set (suffixes ''wrench'' ?chs). seq_width 10 x"
    unfolding su by code_simp
  have v: "map seq_value [''0000000010'', ''0000000009''] = [10, 9]"
    by code_simp
  have s: "sort (map seq_value (suffixes ''wrench'' ?chs)) = [9, 10]"
    unfolding su v by simp
  from sequenceNumbers_fixed_width[OF w]
  have "map seq_value (sequenceNumbers ''wrench'' ?chs) = sort (map seq_value (suffixes ''wrench'' ?chs))"
    by (rule conjunct1)
  then show ?thesis unfolding s .
qed

text \<open>
  Claim C1 as written fails for suffixes of different widths: \<^verbatim>\<open>10\<close> is sorted
  before \<^verbatim>\<open>9\<close>, and the node with suffix \<^verbatim>\<open>10\<close> is given the lock while the node with
  suffix \<^verbatim>\<open>9\<close> exists.
\<close>

theorem sequenceNumbers_width_counterexample:
  "map seq_value (sequenceNumbers ''lock-'' [''lock-9'', ''lock-10'']) = [10, 9] \<and>
   snd (snd (negotiate_once (listing_store ZOK [''lock-9'', ''lock-10'']) [] (ZkCxn ''u'' 500)
      ''/a/lock-'' (Some ''/a/lock-10'') (Cont 0 []))) = GotLock"
  by code_simp

subsection \<open>Passes that do not end in a call of the callback\<close>

text \<open>
  Whenever the suffix of the created node is not among the sorted suffixes, the pass
  ends with its callback neither called nor queued, and \<^verbatim>\<open>async.until\<close> stops there.
  Whenever the listing of the children fails, the pass ends in a \<^verbatim>\<open>TypeError\<close>.
\<close>

lemma at_index_member: "at_index xs i = Some x \<Longrightarrow> x \<in> set xs"
  by (auto simp: at_index_def split: if_splits)

lemma indexOf_sorted_absent: "x \<notin> set xs \<Longrightarrow> indexOf_sorted xs x = - 1"
  by (auto simp: indexOf_sorted_def Let_def dest: at_index_member)

lemma at_index_negative: "i < 0 \<Longrightarrow> at_index xs i = None"
  by (simp add: at_index_def)

lemma negotiate_once_suffix_absent:
  assumes "getChildren st h (slice name 0 (lastIndexOf name CHR ''/'' + 1)) False = (h1, Inr chs)"
    and "slice_from nd (int (length (slice name 0 (lastIndexOf name CHR ''/'' + 1)) +
            length (slice_from name (lastIndexOf name CHR ''/'' + 1))))
          \<notin> set (sequenceNumbers (slice_from name (lastIndexOf name CHR ''/'' + 1)) chs)"
  shows "negotiate_once st h s name (Some nd) callback = (h1, s, NoCallback)"
proof -
  let ?lockname = "slice_from name (lastIndexOf name CHR ''/'' + 1)"
  let ?lockpath = "slice name 0 (lastIndexOf name CHR ''/'' + 1)"
  let ?position = "slice_from nd (int (length ?lockpath + length ?lockname))"
  let ?seqs = "sequenceNumbers ?lockname chs"
  from assms(2) have first: "at_index ?seqs 0 \<noteq> Some ?position"
    by (auto dest: at_index_member)
  from assms(2) have "indexOf_sorted ?seqs ?position = - 1"
    by (rule indexOf_sorted_absent)
  then have none: "at_index ?seqs (indexOf_sorted ?seqs ?position - 1) = None"
    by (simp add: at_index_negative)
  show ?thesis
    unfolding negotiate_once_def Let_def using first
    by (simp add: assms(1) none del: of_nat_add)
qed

lemma negotiate_once_listing_error:
  assumes "getChildren st h (slice name 0 (lastIndexOf name CHR ''/'' + 1)) False = (h1, Inl e)"
  shows "negotiate_once st h s name node callback = (h1, s, Throw TypeError)"
  unfolding negotiate_once_def Let_def
  by (simp add: assms split: option.splits)

lemma negotiateLock_no_callback:
  "negotiate_once st h s name node (Cont n []) = (h1, s1, NoCallback) \<Longrightarrow>
     negotiateLock (Suc n) st h s name node = (h1, s1, Pending ForNothing)"
  by simp

text \<open>
  Claim C2. The listing holds \<^verbatim>\<open>wrench0000000002\<close> only, and the node created is
  \<^verbatim>\<open>/plumber/wrench0000000001\<close>. The suffix is not the lowest and is not found, no
  predecessor is read, and the pass returns without calling or queueing its callback:
  the children are listed once and never again, and \<^verbatim>\<open>lock\<close> does not complete.
\<close>

theorem negotiate_missing_suffix_stalls:
  "fst (lock 5 (listing_store ZOK [''wrench0000000002'']) []
      ((ZkCxn ''127.0.0.1:2181'' 8000)\<lparr>cxnState := CONNECTED, zk := True\<rparr>)
      ''/plumber/wrench'' ''grrr'' []) =
     [Create ''/plumber'' ''grrr'' [],
      Create ''/plumber/wrench'' ''grrr'' [ZOO_SEQUENCE, ZOO_EPHEMERAL],
      GetChildren ''/plumber'' False] \<and>
   snd (snd (lock 5 (listing_store ZOK [''wrench0000000002'']) []
      ((ZkCxn ''127.0.0.1:2181'' 8000)\<lparr>cxnState := CONNECTED, zk := True\<rparr>)
      ''/plumber/wrench'' ''grrr'' [])) = Pending ForNothing"
  by code_simp

text \<open>
  Claim C3. The store answers the listing of the children with an error. The pass
  does not look at the error: it reads the children, which are undefined, and a
  \<^verbatim>\<open>TypeError\<close> leaves the store's callback. The callback of \<^verbatim>\<open>lock\<close> is not called.
\<close>

theorem getChildren_error_throws:
  "fst (lock 5 (listing_store (ZFAIL (- 4)) []) []
      ((ZkCxn ''127.0.0.1:2181'' 8000)\<lparr>cxnState := CONNECTED, zk := True\<rparr>)
      ''/Stumptown/coffee'' ''the best coffee'' []) =
     [Create ''/Stumptown'' ''the best coffee'' [],
      Create ''/Stumptown/coffee'' ''the best coffee'' [ZOO_SEQUENCE, ZOO_EPHEMERAL],
      GetChildren ''/Stumptown'' False] \<and>
   snd (snd (lock 5 (listing_store (ZFAIL (- 4)) []) []
      ((ZkCxn ''127.0.0.1:2181'' 8000)\<lparr>cxnState := CONNECTED, zk := True\<rparr>)
      ''/Stumptown/coffee'' ''the best coffee'' [])) = Uncaught TypeError"
  by code_simp

section \<open>The connection registry: properties\<close>










lemma list_all_assign:
  "list_all P kvs \<Longrightarrow> P (k, v) \<Longrightarrow> list_all P (assign kvs k v)"
  by (induction kvs k v rule: assign.induct) auto

lemma property_cases:
  obtains (inherited) k where "property obj u = Some (Inherited k)" "obj u = None"
    | (own) v where "property obj u = Some (Own v)" "obj u = Some v"
    | (none) "property obj u = None" "obj u = None"
proof (cases "obj u")
  case None
  show ?thesis
  proof (cases "u \<in> set object_prototype_keys")
    case True
    with None show ?thesis by (intro inherited[of u]) (simp_all add: property_def)
  next
    case False
    with None show ?thesis by (intro none) (simp_all add: property_def)
  qed
next
  case (Some v)
  then show ?thesis by (intro own[of v]) (simp_all add: property_def)
qed

lemma connect_new:
  "fst (connect (ZkCxn u t)) = (ZkCxn u t)\<lparr>cxnState := CONNECTING, zk := True, stateEmitter := True\<rparr>"
  by (simp add: connect_def ZkCxn_def)

text \<open>The empty registry is well formed, and \<^verbatim>\<open>getCxn\<close> keeps a registry so; what
  \<^verbatim>\<open>getCxn\<close> throws is a \<^verbatim>\<open>TypeError\<close>.\<close>

lemma registry_ok_empty: "registry_ok \<lparr>cxns = [], constructed = n\<rparr>"
  by (simp add: registry_ok_def)

lemma connect_holds_handle:
  "cxnState c = CLOSED \<or> zk c \<Longrightarrow>
     cxnState (fst (connect c)) = CLOSED \<or> zk (fst (connect c))"
  by (auto simp: connect_def onConnection_def)

lemma getCxn_registry_ok:
  assumes "registry_ok g" and "getCxn g zkUrls cxnTimeout = Inr (g1, r)"
  shows "registry_ok g1"
proof (cases rule: property_cases[of "map_of (cxns g)" "join zkUrls '',''"])
  case (inherited k)
  with assms(2) show ?thesis by (simp add: getCxn_def Let_def)
next
  case (own v)
  obtain i c where v: "v = (i, c)" by (cases v)
  from own v have "(join zkUrls '','', i, c) \<in> set (cxns g)" by (auto dest: map_of_SomeD)
  with assms(1) have old: "i < constructed g" "cxnState c = CLOSED \<or> zk c"
    by (auto simp: registry_ok_def list_all_iff)
  from connect_holds_handle[OF old(2)] old(1) assms own v show ?thesis
    by (auto simp: getCxn_def registry_ok_def Let_def intro!: list_all_assign)
next
  case none
  from assms(1) have "list_all (\<lambda>(u, i, c). i < Suc (constructed g) \<and> (cxnState c = CLOSED \<or> zk c)) (cxns g)"
    by (auto simp: registry_ok_def list_all_iff)
  with none assms(2) show ?thesis
    by (auto simp: getCxn_def registry_ok_def Let_def connect_new intro!: list_all_assign)
qed

lemma getCxn_throws_TypeError:
  "getCxn g zkUrls cxnTimeout = Inl e \<Longrightarrow> e = TypeError"
  by (cases rule: property_cases[of "map_of (cxns g)" "join zkUrls '',''"])
     (auto simp: getCxn_def Let_def split: prod.splits)







end
